theory Spec2Isabelle
  imports Main "HOL-Library.Word"
begin

section \<open>SafeQueue.hpp: the queue under its own mutex\<close>

text \<open>
  \<^verbatim>\<open>SageQueue<T>\<close> wraps a \<^verbatim>\<open>std::queue<T>\<close> and a private mutex; every member function
  locks the mutex, performs one operation on the queue and unlocks. Each member function
  is therefore one atomic step on the sequence of queued elements, head first.
  \<^verbatim>\<open>std::queue::pop\<close> and \<^verbatim>\<open>std::queue::front\<close> on an empty queue are undefined
  behaviour: the model returns \<open>None\<close> there.
\<close>

definition size_q :: "'a list \<Rightarrow> nat" where
  "size_q q = length q"

definition empty_q :: "'a list \<Rightarrow> bool" where
  "empty_q q = (case q of [] \<Rightarrow> True | _ # _ \<Rightarrow> False)"

definition push :: "'a \<Rightarrow> 'a list \<Rightarrow> 'a list" where
  "push x q = q @ [x]"

definition pop :: "'a list \<Rightarrow> 'a list option" where
  "pop q = (case q of [] \<Rightarrow> None | _ # r \<Rightarrow> Some r)"

definition top_q :: "'a list \<Rightarrow> 'a option" where
  "top_q q = (case q of [] \<Rightarrow> None | x # _ \<Rightarrow> Some x)"

section \<open>Callables, bind objects and packaged tasks\<close>

text \<open>
  The values passed to callables are C++ \<^verbatim>\<open>int\<close>s (32 bits). A callable either returns
  (\<^verbatim>\<open>void\<close> or an \<^verbatim>\<open>int\<close>) or throws an exception. \<open>Broken_promise\<close> is the
  \<^verbatim>\<open>std::future_error\<close> that the standard library stores in a future whose packaged task
  is destroyed before it was called.

  \<^verbatim>\<open>std::bind(f, args...)\<close> stores decayed copies of the arguments inside the bind object
  and passes these stored copies, as lvalues, to \<^verbatim>\<open>f\<close> when the object is called. A
  callable is therefore a function from the stored arguments to an outcome and the stored
  arguments after the call: what \<^verbatim>\<open>f\<close> writes through a reference parameter is written
  into the bind object.
\<close>

type_synonym cint = "32 word"

datatype exn = Exn string | Broken_promise

datatype rvalue = RVoid | RInt cint

type_synonym outcome = "exn + rvalue"

type_synonym callable = "cint list \<Rightarrow> outcome \<times> cint list"

record bind_obj =
  fn :: callable
  bound :: "cint list"

definition bind :: "callable \<Rightarrow> cint list \<Rightarrow> bind_obj" where
  "bind f vs = \<lparr>fn = f, bound = vs\<rparr>"

definition invoke :: "bind_obj \<Rightarrow> outcome \<times> bind_obj" where
  "invoke b = (case fn b (bound b) of (r, vs) \<Rightarrow> (r, b\<lparr>bound := vs\<rparr>))"

text \<open>
  A \<^verbatim>\<open>std::packaged_task<RT()>\<close> holds the wrapped function and the shared state that its
  future reads. Calling it runs the function and stores the returned value, or the
  exception that the function threw, in the shared state; calling it when the shared state
  already holds an outcome throws \<^verbatim>\<open>std::future_error\<close> to the caller (\<open>None\<close> below).

  \<^verbatim>\<open>submit\<close> allocates each packaged task with \<^verbatim>\<open>make_shared\<close>; the queued
  \<^verbatim>\<open>std::function<void()>\<close> and every copy of it hold the shared pointer. The packaged
  tasks live in a heap (a list), and a queued task, like the returned future, is the index
  of its packaged task.
\<close>

record packaged_task =
  func :: bind_obj
  result :: "outcome option"

definition run_task :: "nat \<Rightarrow> packaged_task list \<Rightarrow> packaged_task list option" where
  "run_task h hp =
     (if h < length hp then
        (case result (hp ! h) of
           Some _ \<Rightarrow> None
         | None \<Rightarrow> (case invoke (func (hp ! h)) of
                      (r, b) \<Rightarrow> Some (hp[h := \<lparr>func = b, result = Some r\<rparr>])))
      else None)"

text \<open>
  The destructor of a packaged task abandons the shared state: if no outcome has been
  stored, it stores \<^verbatim>\<open>broken_promise\<close> and makes the future ready.
\<close>

definition abandon :: "nat \<Rightarrow> packaged_task list \<Rightarrow> packaged_task list" where
  "abandon h hp =
     (if h < length hp \<and> result (hp ! h) = None
      then hp[h := (hp ! h)\<lparr>result := Some (Inl Broken_promise)\<rparr>]
      else hp)"

subsection \<open>test.hpp\<close>

text \<open>
  \<^verbatim>\<open>addition_store(int a, int b, int &ans)\<close> assigns \<^verbatim>\<open>a + b\<close> to \<^verbatim>\<open>ans\<close>;
  \<^verbatim>\<open>addition_return(int a, int b)\<close> returns it. (The sleep is not modelled; the test only
  adds values between 100 and 200, where \<^verbatim>\<open>int\<close> addition does not overflow.) A call
  with another number of arguments does not compile; the second equations are never used.
\<close>

fun addition_store :: callable where
  "addition_store [a, b, ans] = (Inr RVoid, [a, b, a + b])"
| "addition_store vs = (Inr RVoid, vs)"

fun addition_return :: callable where
  "addition_return [a, b] = (Inr (RInt (a + b)), [a, b])"
| "addition_return vs = (Inr RVoid, vs)"

section \<open>ThreadPool.hpp\<close>

text \<open>
  The pool is modelled as a transition system. Every access to shared state in the source is
  either a member function of the queue (atomic under the queue's mutex), a read or write of
  the atomic flag \<^verbatim>\<open>_shutdown\<close>, or an operation on the pool's mutex and condition
  variable; the program is free of data races, so its executions are the interleavings of
  these atomic steps. A step that cannot be taken (a lock that is held, a blocked
  \<^verbatim>\<open>wait\<close>, a \<^verbatim>\<open>join\<close> of a running thread) returns \<open>None\<close>. Any number of threads may be
  inside \<^verbatim>\<open>submit\<close>; \<^verbatim>\<open>shutdown\<close> is called at most once. Tasks touch nothing but their
  own bind object and future: they do not call the pool.
\<close>

subsection \<open>State\<close>

text \<open>
  A worker thread runs \<^verbatim>\<open>ThreadWorker::operator()\<close>. Its control points are the shared
  accesses of the loop, named by source line (an assignment to the local variables
  \<^verbatim>\<open>gotten\<close> and \<^verbatim>\<open>func\<close> belongs to the step of the shared access that yields its
  value):
  \<^item> \<open>L66_shutdown\<close>, \<open>L66_empty\<close>: the two operands of the loop condition (line 66);
  \<^item> \<open>L67_lock\<close>: the constructor of the \<^verbatim>\<open>unique_lock\<close> on the pool's mutex;
  \<^item> \<open>L68_empty\<close>, \<open>L68_shutdown\<close>: the two operands of the condition of line 68,
    \<open>L68_wait\<close>: the call of \<^verbatim>\<open>wait\<close>, \<open>Waiting\<close>: blocked on the condition variable,
    \<open>Relock\<close>: woken, \<^verbatim>\<open>wait\<close> is re-acquiring the mutex;
  \<^item> \<open>L69\<close>: the emptiness test of line 69; \<open>L72_top\<close>, \<open>L73_pop\<close>: lines 72 and 73;
  \<^item> \<open>L75\<close>: the test of \<^verbatim>\<open>gotten\<close>, \<open>In_task\<close>: inside the call \<^verbatim>\<open>func()\<close>;
  \<^item> \<open>Unlock\<close>: the end of the loop body, where the \<^verbatim>\<open>unique_lock\<close> is destroyed;
  \<^item> \<open>Exited\<close>: the loop has ended and the thread function has returned;
  \<^item> \<open>Crashed\<close>: undefined behaviour (\<^verbatim>\<open>top\<close> or \<^verbatim>\<open>pop\<close> on an empty queue, a dangling
    task pointer) or an exception that leaves the thread function.
\<close>

datatype label =
    L66_shutdown | L66_empty | L67_lock
  | L68_empty | L68_shutdown | L68_wait | Waiting | Relock
  | L69 | L72_top | L73_pop | L75 | In_task | Unlock
  | Exited | Crashed

record worker =
  pc :: label
  gotten :: bool
  wfunc :: "nat option"

text \<open>Where the (single) call of \<^verbatim>\<open>shutdown\<close> stands.\<close>

datatype sd_label = Not_called | Flag_set | Joining nat | Returned

text \<open>The threads that \<^verbatim>\<open>shutdown\<close> has joined so far.\<close>

fun joined :: "sd_label \<Rightarrow> nat \<Rightarrow> bool" where
  "joined (Joining k) j = (j < k)"
| "joined Returned j = True"
| "joined _ j = False"

text \<open>
  The pool: the members \<^verbatim>\<open>_shutdown\<close>, \<^verbatim>\<open>_tasks\<close>, \<^verbatim>\<open>_threads\<close> and \<^verbatim>\<open>_mtx\<close> (its
  owner, if locked). The threads blocked on \<^verbatim>\<open>_tasks_empty\<close> are the workers at
  \<open>Waiting\<close>. Further: the heap of packaged tasks, the variables of the submitting code,
  the number of \<^verbatim>\<open>submit\<close> calls that have pushed and not yet notified, and the position
  of the \<^verbatim>\<open>shutdown\<close> call. The last four fields are history variables, written and never
  read by the steps: the tasks pushed, popped and completed so far, in order, and the number
  of tasks pushed when \<^verbatim>\<open>shutdown\<close> wrote the flag.
\<close>

record pool =
  shutdown :: bool
  tasks :: "nat list"
  threads :: "worker list"
  mtx :: "nat option"
  heap :: "packaged_task list"
  vars :: "cint list"
  notifies :: nat
  sd :: sd_label
  pushed :: "nat list"
  popped :: "nat list"
  runs :: "nat list"
  mark :: nat

subsection \<open>Constructor\<close>

definition new_worker :: worker where
  "new_worker = \<lparr>pc = L66_shutdown, gotten = False, wfunc = None\<rparr>"

definition init :: "nat \<Rightarrow> pool" where
  "init n = \<lparr>shutdown = False, tasks = [], threads = replicate n new_worker, mtx = None,
             heap = [], vars = [], notifies = 0, sd = Not_called,
             pushed = [], popped = [], runs = [], mark = 0\<rparr>"

text \<open>
  \<^verbatim>\<open>ThreadPool(const int _n_threads) : _threads(_n_threads), _shutdown(false)\<close>: the
  \<^verbatim>\<open>int\<close> is converted to the vector's \<^verbatim>\<open>size_type\<close> (64 bits), and the vector's
  constructor throws \<^verbatim>\<open>std::length_error\<close> when the size exceeds \<^verbatim>\<open>max_size()\<close>, a
  constant of the standard library that is a parameter here. The body then starts one
  thread per element.
\<close>

datatype error = Length_error

definition ThreadPool :: "nat \<Rightarrow> 32 word \<Rightarrow> error + pool" where
  "ThreadPool max_size n_threads =
     (let n = unat (word_of_int (sint n_threads) :: 64 word)
      in if max_size < n then Inl Length_error else Inr (init n))"

subsection \<open>Steps\<close>

definition goto :: "nat \<Rightarrow> label \<Rightarrow> pool \<Rightarrow> pool" where
  "goto i l s = s\<lparr>threads := (threads s)[i := (threads s ! i)\<lparr>pc := l\<rparr>]\<rparr>"

definition set_gotten :: "nat \<Rightarrow> bool \<Rightarrow> pool \<Rightarrow> pool" where
  "set_gotten i g s = s\<lparr>threads := (threads s)[i := (threads s ! i)\<lparr>gotten := g\<rparr>]\<rparr>"

definition set_func :: "nat \<Rightarrow> nat \<Rightarrow> pool \<Rightarrow> pool" where
  "set_func i t s = s\<lparr>threads := (threads s)[i := (threads s ! i)\<lparr>wfunc := Some t\<rparr>]\<rparr>"

text \<open>One atomic step of worker \<open>i\<close>; \<open>None\<close> when the worker cannot move.\<close>

definition worker_step :: "nat \<Rightarrow> pool \<Rightarrow> pool option" where
  "worker_step i s =
     (if length (threads s) \<le> i then None
      else case pc (threads s ! i) of
        L66_shutdown \<Rightarrow> Some (goto i (if \<not> shutdown s then L67_lock else L66_empty) s)
      | L66_empty \<Rightarrow> Some (goto i (if \<not> empty_q (tasks s) then L67_lock else Exited) s)
      | L67_lock \<Rightarrow>
          (case mtx s of None \<Rightarrow> Some (goto i L68_empty (s\<lparr>mtx := Some i\<rparr>)) | Some _ \<Rightarrow> None)
      | L68_empty \<Rightarrow> Some (goto i (if empty_q (tasks s) then L68_shutdown else L69) s)
      | L68_shutdown \<Rightarrow> Some (goto i (if \<not> shutdown s then L68_wait else L69) s)
      | L68_wait \<Rightarrow> Some (goto i Waiting (s\<lparr>mtx := None\<rparr>))
      | Waiting \<Rightarrow> None
      | Relock \<Rightarrow>
          (case mtx s of None \<Rightarrow> Some (goto i L69 (s\<lparr>mtx := Some i\<rparr>)) | Some _ \<Rightarrow> None)
      | L69 \<Rightarrow>
          (if empty_q (tasks s) then Some (goto i L75 (set_gotten i False s))
           else Some (goto i L72_top (set_gotten i True s)))
      | L72_top \<Rightarrow>
          (case top_q (tasks s) of
             None \<Rightarrow> Some (goto i Crashed s)
           | Some t \<Rightarrow> Some (goto i L73_pop (set_func i t s)))
      | L73_pop \<Rightarrow>
          (case pop (tasks s) of
             None \<Rightarrow> Some (goto i Crashed s)
           | Some q \<Rightarrow> Some (goto i L75 (s\<lparr>tasks := q, popped := popped s @ take 1 (tasks s)\<rparr>)))
      | L75 \<Rightarrow>
          (if gotten (threads s ! i) then
             (case wfunc (threads s ! i) of
                None \<Rightarrow> Some (goto i Crashed s)
              | Some _ \<Rightarrow> Some (goto i In_task s))
           else Some (goto i Unlock s))
      | In_task \<Rightarrow>
          (case wfunc (threads s ! i) of
             None \<Rightarrow> Some (goto i Crashed s)
           | Some t \<Rightarrow>
               (case run_task t (heap s) of
                  None \<Rightarrow> Some (goto i Crashed s)
                | Some hp \<Rightarrow> Some (goto i Unlock (s\<lparr>heap := hp, runs := runs s @ [t]\<rparr>))))
      | Unlock \<Rightarrow> Some (goto i L66_shutdown (s\<lparr>mtx := None\<rparr>))
      | Exited \<Rightarrow> None
      | Crashed \<Rightarrow> None)"

text \<open>
  An argument of \<^verbatim>\<open>submit\<close> is a variable of the submitting code (an lvalue) or a value.
\<close>

datatype arg = Var nat | Val cint

fun arg_ok :: "cint list \<Rightarrow> arg \<Rightarrow> bool" where
  "arg_ok vs (Var a) = (a < length vs)"
| "arg_ok vs (Val v) = True"

fun arg_value :: "cint list \<Rightarrow> arg \<Rightarrow> cint" where
  "arg_value vs (Var a) = vs ! a"
| "arg_value vs (Val v) = v"

text \<open>
  \<^verbatim>\<open>submit\<close>, lines 29 to 36: bind the arguments, allocate the packaged task, push the
  task. Line 37 (\<^verbatim>\<open>notify_one\<close>) is a step of its own, and line 38 returns the future:
  the index of the packaged task.
\<close>

definition submit_push :: "callable \<Rightarrow> arg list \<Rightarrow> pool \<Rightarrow> pool option" where
  "submit_push f args s =
     (if list_all (arg_ok (vars s)) args then
        (let task_ptr = length (heap s) in
         Some (s\<lparr>heap := heap s @ [\<lparr>func = bind f (map (arg_value (vars s)) args), result = None\<rparr>],
                 tasks := push task_ptr (tasks s),
                 pushed := pushed s @ [task_ptr],
                 notifies := Suc (notifies s)\<rparr>))
      else None)"

definition submit_future :: "pool \<Rightarrow> nat" where
  "submit_future s = length (heap s)"

text \<open>
  \<^verbatim>\<open>notify_one\<close> wakes one of the threads blocked on the condition variable, and does
  nothing when there is none. The event names the thread that is woken.
\<close>

definition submit_notify :: "nat \<Rightarrow> pool \<Rightarrow> pool option" where
  "submit_notify j s =
     (if notifies s = 0 then None
      else if list_all (\<lambda>w. pc w \<noteq> Waiting) (threads s) then Some (s\<lparr>notifies := notifies s - 1\<rparr>)
      else if j < length (threads s) \<and> pc (threads s ! j) = Waiting
           then Some (goto j Relock (s\<lparr>notifies := notifies s - 1\<rparr>))
      else None)"

text \<open>A blocked thread may also wake spuriously.\<close>

definition spurious :: "nat \<Rightarrow> pool \<Rightarrow> pool option" where
  "spurious j s =
     (if j < length (threads s) \<and> pc (threads s ! j) = Waiting then Some (goto j Relock s)
      else None)"

text \<open>\<^verbatim>\<open>shutdown\<close>: line 42, line 43, and the join loop of lines 44 to 46.\<close>

definition shutdown_set :: "pool \<Rightarrow> pool option" where
  "shutdown_set s =
     (case sd s of
        Not_called \<Rightarrow> Some (s\<lparr>shutdown := True, sd := Flag_set, mark := length (pushed s)\<rparr>)
      | _ \<Rightarrow> None)"

definition wake :: "worker \<Rightarrow> worker" where
  "wake w = (if pc w = Waiting then w\<lparr>pc := Relock\<rparr> else w)"

definition shutdown_notify :: "pool \<Rightarrow> pool option" where
  "shutdown_notify s =
     (case sd s of
        Flag_set \<Rightarrow> Some (s\<lparr>threads := map wake (threads s), sd := Joining 0\<rparr>)
      | _ \<Rightarrow> None)"

definition shutdown_join :: "pool \<Rightarrow> pool option" where
  "shutdown_join s =
     (case sd s of
        Joining i \<Rightarrow>
          (if i < length (threads s) then
             (if pc (threads s ! i) = Exited then Some (s\<lparr>sd := Joining (Suc i)\<rparr>) else None)
           else Some (s\<lparr>sd := Returned\<rparr>))
      | _ \<Rightarrow> None)"

text \<open>The submitting code declares and assigns its variables.\<close>

definition declare_var :: "cint \<Rightarrow> pool \<Rightarrow> pool option" where
  "declare_var v s = Some (s\<lparr>vars := vars s @ [v]\<rparr>)"

definition assign_var :: "nat \<Rightarrow> cint \<Rightarrow> pool \<Rightarrow> pool option" where
  "assign_var a v s = (if a < length (vars s) then Some (s\<lparr>vars := (vars s)[a := v]\<rparr>) else None)"

text \<open>\<^verbatim>\<open>future::get\<close>: \<open>None\<close> while the caller has to block.\<close>

definition get :: "nat \<Rightarrow> pool \<Rightarrow> outcome option" where
  "get h s = (if h < length (heap s) then result (heap s ! h) else None)"

subsection \<open>Destructor\<close>

text \<open>
  \<^verbatim>\<open>ThreadPool\<close> declares no destructor; the implicit one destroys the members. The
  destructor of a \<^verbatim>\<open>std::thread\<close> that has not been joined calls \<^verbatim>\<open>std::terminate\<close>
  (\<open>None\<close>). The destructor of \<^verbatim>\<open>_tasks\<close> destroys the queued closures; once all
  threads have ended, a queued closure is the last owner of its packaged task, which is
  destroyed with it. The futures outlive the pool. Destruction ends the life of the pool and
  is not a step of the interleavings below.
\<close>

definition destroy :: "pool \<Rightarrow> pool option" where
  "destroy s =
     (if list_all (joined (sd s)) [0..<length (threads s)]
      then Some (s\<lparr>heap := fold abandon (tasks s) (heap s), tasks := []\<rparr>)
      else None)"

subsection \<open>Interleavings\<close>

datatype event =
    Declare cint
  | Assign nat cint
  | Submit_push callable "arg list"
  | Submit_notify nat
  | Shutdown_set
  | Shutdown_notify
  | Shutdown_join
  | Worker nat
  | Spurious nat

fun step :: "event \<Rightarrow> pool \<Rightarrow> pool option" where
  "step (Declare v) s = declare_var v s"
| "step (Assign a v) s = assign_var a v s"
| "step (Submit_push f args) s = submit_push f args s"
| "step (Submit_notify j) s = submit_notify j s"
| "step Shutdown_set s = shutdown_set s"
| "step Shutdown_notify s = shutdown_notify s"
| "step Shutdown_join s = shutdown_join s"
| "step (Worker i) s = worker_step i s"
| "step (Spurious j) s = spurious j s"

fun exec :: "event list \<Rightarrow> pool \<Rightarrow> pool option" where
  "exec [] s = Some s"
| "exec (e # es) s = (case step e s of None \<Rightarrow> None | Some s' \<Rightarrow> exec es s')"

section \<open>Invariants of the interleavings\<close>

text \<open>
  \<open>holds_lock\<close>: the control points between the construction and the destruction of
  the \<^verbatim>\<open>unique_lock\<close>, the blocked part of \<^verbatim>\<open>wait\<close> excluded. \<open>holding\<close>: the worker
  has removed a task from the queue and has not completed it.
\<close>

fun holds_lock :: "label \<Rightarrow> bool" where
  "holds_lock L68_empty = True"
| "holds_lock L68_shutdown = True"
| "holds_lock L68_wait = True"
| "holds_lock L69 = True"
| "holds_lock L72_top = True"
| "holds_lock L73_pop = True"
| "holds_lock L75 = True"
| "holds_lock In_task = True"
| "holds_lock Unlock = True"
| "holds_lock _ = False"

definition holding :: "worker \<Rightarrow> bool" where
  "holding w = (pc w = In_task \<or> (pc w = L75 \<and> gotten w))"


definition thread_ok :: "pool \<Rightarrow> nat \<Rightarrow> worker \<Rightarrow> bool" where
  "thread_ok s j w =
     ((holds_lock (pc w) \<longrightarrow> mtx s = Some j) \<and>
      pc w \<noteq> Crashed \<and>
      (pc w = L66_empty \<or> pc w = Exited \<longrightarrow> shutdown s) \<and>
      (pc w = Exited \<longrightarrow> mark s \<le> length (popped s)) \<and>
      (joined (sd s) j \<longrightarrow> pc w = Exited))"

definition holder_inv :: "pool \<Rightarrow> worker \<Rightarrow> bool" where
  "holder_inv s w =
     (holds_lock (pc w) \<and>
      (pc w = L72_top \<or> pc w = L73_pop \<longrightarrow> tasks s \<noteq> [] \<and> gotten w) \<and>
      (pc w = L73_pop \<longrightarrow> wfunc w = Some (hd (tasks s))) \<and>
      (if holding w
       then popped s \<noteq> [] \<and> wfunc w = Some (last (popped s)) \<and> runs s = butlast (popped s)
       else runs s = popped s))"

definition holder_ok :: "pool \<Rightarrow> bool" where
  "holder_ok s =
     (case mtx s of
        None \<Rightarrow> runs s = popped s
      | Some i \<Rightarrow> i < length (threads s) \<and> holder_inv s (threads s ! i))"

definition global_ok :: "pool \<Rightarrow> bool" where
  "global_ok s =
     (popped s @ tasks s = pushed s \<and> pushed s = [0..<length (heap s)] \<and>
      (sd s = Not_called) = (\<not> shutdown s) \<and>
      (shutdown s \<longrightarrow> mark s \<le> length (heap s)))"

definition results_ok :: "pool \<Rightarrow> bool" where
  "results_ok s = (\<forall>h<length (heap s). (result (heap s ! h) = None) = (h \<notin> set (runs s)))"

definition threads_ok :: "pool \<Rightarrow> bool" where
  "threads_ok s = (\<forall>j<length (threads s). thread_ok s j (threads s ! j))"

definition pool_inv :: "pool \<Rightarrow> bool" where
  "pool_inv s = (global_ok s \<and> results_ok s \<and> holder_ok s \<and> threads_ok s)"

subsection \<open>Schedules\<close>

text \<open>
  Two concrete schedules. In the first, a pool with one worker receives one task, the worker
  runs through one iteration of its loop, and \<^verbatim>\<open>shutdown\<close> is called and returns. In the
  second, the same calls are made on a pool without workers.
\<close>

definition one_task_shutdown :: "event list" where
  "one_task_shutdown =
     [Submit_push addition_return [Val 1, Val 2], Submit_notify 0,
      Worker 0, Worker 0, Worker 0, Worker 0, Worker 0, Worker 0, Worker 0, Worker 0, Worker 0,
      Shutdown_set, Shutdown_notify, Worker 0, Worker 0, Shutdown_join, Shutdown_join]"

definition no_worker_shutdown :: "event list" where
  "no_worker_shutdown =
     [Submit_push addition_return [Val 1, Val 2], Submit_notify 0,
      Shutdown_set, Shutdown_notify, Shutdown_join]"

text \<open>
  One iteration of the loop of worker 0 that finds a task: from the loop condition through
  the call of the task to the end of the loop body.
\<close>

definition iteration :: "event list" where
  "iteration = [Worker 0, Worker 0, Worker 0, Worker 0, Worker 0, Worker 0, Worker 0, Worker 0,
     Worker 0]"

text \<open>
  Lost wakeups: worker 0 evaluates the condition of line 68 with the queue empty and the flag
  clear; before it calls \<^verbatim>\<open>wait\<close>, \<^verbatim>\<open>shutdown\<close> writes the flag and notifies (first
  schedule), or \<^verbatim>\<open>submit\<close> pushes a task and notifies (second schedule).
\<close>

definition lost_wakeup_shutdown :: "event list" where
  "lost_wakeup_shutdown =
     [Worker 0, Worker 0, Worker 0, Worker 0, Shutdown_set, Shutdown_notify, Worker 0]"

definition lost_wakeup_submit :: "event list" where
  "lost_wakeup_submit =
     [Worker 0, Worker 0, Worker 0, Worker 0,
      Submit_push addition_return [Val 1, Val 2], Submit_notify 0, Worker 0]"

text \<open>
  Two workers and two tasks: worker 0 takes the first task and calls it; worker 1 arrives
  at the lock.
\<close>

definition task_under_lock :: "event list" where
  "task_under_lock =
     [Submit_push addition_return [Val 1, Val 2], Submit_notify 0,
      Submit_push addition_return [Val 3, Val 4], Submit_notify 0,
      Worker 0, Worker 0, Worker 0, Worker 0, Worker 0, Worker 0, Worker 0, Worker 1]"

text \<open>
  Scenario 1 of the specification: the callable \<^verbatim>\<open>f(x) = x * 2\<close> is submitted for
  \<^verbatim>\<open>x\<close> from 1 to 10, the argument being the variable \<^verbatim>\<open>x\<close> of the submitting code, which
  is assigned before each call and once more after the last one. Then the single worker runs
  ten iterations.
\<close>

fun times2 :: callable where
  "times2 [x] = (Inr (RInt (x * 2)), [x])"
| "times2 vs = (Inr RVoid, vs)"

fun submit_x :: "nat \<Rightarrow> event list" where
  "submit_x x = [Assign 0 (of_nat x), Submit_push times2 [Var 0], Submit_notify 0]"

definition scenario1 :: "event list" where
  "scenario1 = Declare 0 # concat (map submit_x [1..<11]) @ Assign 0 0 # concat (replicate 10 iteration)"

text \<open>
  Scenario 1 again, with another schedule: the worker evaluates the condition of line 68
  before the first task is pushed and calls \<^verbatim>\<open>wait\<close> after the last one.
\<close>

definition scenario1_lost_wakeup :: "event list" where
  "scenario1_lost_wakeup =
     Declare 0 # [Worker 0, Worker 0, Worker 0, Worker 0] @ concat (map submit_x [1..<11]) @
     [Worker 0]"

text \<open>
  The same submissions made while the worker is blocked in \<^verbatim>\<open>wait\<close>: the first
  \<^verbatim>\<open>notify_one\<close> wakes it.
\<close>

definition scenario1_woken :: "event list" where
  "scenario1_woken =
     Declare 0 # [Worker 0, Worker 0, Worker 0, Worker 0, Worker 0] @
     concat (map submit_x [1..<11]) @ [Worker 0, Worker 0, Worker 0, Worker 0, Worker 0]"

text \<open>Two tasks are pushed and worker 0 removes one.\<close>

definition two_tasks_one_pop :: "event list" where
  "two_tasks_one_pop =
     [Submit_push addition_return [Val 1, Val 2], Submit_notify 0,
      Submit_push addition_return [Val 3, Val 4], Submit_notify 0,
      Worker 0, Worker 0, Worker 0, Worker 0, Worker 0, Worker 0]"

text \<open>A callable that throws.\<close>

definition throwing :: callable where
  "throwing vs = (Inl (Exn ''failure''), vs)"

text \<open>
  A packaged task after its call; and the events that assign to variable \<open>c\<close> of the
  submitting code.
\<close>

definition done_task :: "packaged_task \<Rightarrow> packaged_task" where
  "done_task t = \<lparr>func = snd (invoke (func t)), result = Some (fst (invoke (func t)))\<rparr>"

fun assigns_to :: "nat \<Rightarrow> event \<Rightarrow> bool" where
  "assigns_to c (Assign a v) = (a = c)"
| "assigns_to c _ = False"

subsection \<open>Preservation\<close>

lemma pool_inv_init: "pool_inv (init n)"
proof -
  have "global_ok (init n)" by (simp add: global_ok_def init_def)
  moreover have "results_ok (init n)" by (simp add: results_ok_def init_def)
  moreover have "holder_ok (init n)" by (simp add: holder_ok_def init_def)
  moreover have "threads_ok (init n)"
    by (simp add: threads_ok_def thread_ok_def init_def new_worker_def)
  ultimately show ?thesis by (simp add: pool_inv_def)
qed

lemma threads_okD: "threads_ok s \<Longrightarrow> j < length (threads s) \<Longrightarrow> thread_ok s j (threads s ! j)"
  unfolding threads_ok_def by blast

lemma results_okD:
  "results_ok s \<Longrightarrow> h < length (heap s) \<Longrightarrow> (result (heap s ! h) = None) = (h \<notin> set (runs s))"
  unfolding results_ok_def by blast

lemma worker_step_less: "worker_step i s = Some s' \<Longrightarrow> i < length (threads s)"
  by (simp add: worker_step_def split: if_splits)

lemma worker_stepE [consumes 1, case_names loop_run loop_sd loop_more exit lock chk_empty
    chk_nonempty chk_run chk_sd wait relock none some top pop call skip task_done unlock crash]:
  assumes "worker_step i s = Some s'"
  obtains
    "i < length (threads s)" "pc (threads s ! i) = L66_shutdown" "\<not> shutdown s"
      "s' = goto i L67_lock s"
  | "i < length (threads s)" "pc (threads s ! i) = L66_shutdown" "shutdown s"
      "s' = goto i L66_empty s"
  | "i < length (threads s)" "pc (threads s ! i) = L66_empty" "tasks s \<noteq> []"
      "s' = goto i L67_lock s"
  | "i < length (threads s)" "pc (threads s ! i) = L66_empty" "tasks s = []"
      "s' = goto i Exited s"
  | "i < length (threads s)" "pc (threads s ! i) = L67_lock" "mtx s = None"
      "s' = goto i L68_empty (s\<lparr>mtx := Some i\<rparr>)"
  | "i < length (threads s)" "pc (threads s ! i) = L68_empty" "tasks s = []"
      "s' = goto i L68_shutdown s"
  | "i < length (threads s)" "pc (threads s ! i) = L68_empty" "tasks s \<noteq> []"
      "s' = goto i L69 s"
  | "i < length (threads s)" "pc (threads s ! i) = L68_shutdown" "\<not> shutdown s"
      "s' = goto i L68_wait s"
  | "i < length (threads s)" "pc (threads s ! i) = L68_shutdown" "shutdown s"
      "s' = goto i L69 s"
  | "i < length (threads s)" "pc (threads s ! i) = L68_wait"
      "s' = goto i Waiting (s\<lparr>mtx := None\<rparr>)"
  | "i < length (threads s)" "pc (threads s ! i) = Relock" "mtx s = None"
      "s' = goto i L69 (s\<lparr>mtx := Some i\<rparr>)"
  | "i < length (threads s)" "pc (threads s ! i) = L69" "tasks s = []"
      "s' = goto i L75 (set_gotten i False s)"
  | "i < length (threads s)" "pc (threads s ! i) = L69" "tasks s \<noteq> []"
      "s' = goto i L72_top (set_gotten i True s)"
  | t q where "i < length (threads s)" "pc (threads s ! i) = L72_top" "tasks s = t # q"
      "s' = goto i L73_pop (set_func i t s)"
  | t q where "i < length (threads s)" "pc (threads s ! i) = L73_pop" "tasks s = t # q"
      "s' = goto i L75 (s\<lparr>tasks := q, popped := popped s @ [t]\<rparr>)"
  | t where "i < length (threads s)" "pc (threads s ! i) = L75" "gotten (threads s ! i)"
      "wfunc (threads s ! i) = Some t" "s' = goto i In_task s"
  | "i < length (threads s)" "pc (threads s ! i) = L75" "\<not> gotten (threads s ! i)"
      "s' = goto i Unlock s"
  | t hp where "i < length (threads s)" "pc (threads s ! i) = In_task"
      "wfunc (threads s ! i) = Some t" "run_task t (heap s) = Some hp"
      "s' = goto i Unlock (s\<lparr>heap := hp, runs := runs s @ [t]\<rparr>)"
  | "i < length (threads s)" "pc (threads s ! i) = Unlock"
      "s' = goto i L66_shutdown (s\<lparr>mtx := None\<rparr>)"
  | "i < length (threads s)" "s' = goto i Crashed s"
      "(pc (threads s ! i) = L72_top \<and> tasks s = []) \<or>
       (pc (threads s ! i) = L73_pop \<and> tasks s = []) \<or>
       (pc (threads s ! i) = L75 \<and> gotten (threads s ! i) \<and> wfunc (threads s ! i) = None) \<or>
       (pc (threads s ! i) = In_task \<and>
          (case wfunc (threads s ! i) of None \<Rightarrow> True | Some t \<Rightarrow> run_task t (heap s) = None))"
proof -
  have i: "i < length (threads s)"
    using assms by (simp add: worker_step_def split: if_splits)
  have eq: "s' = the (worker_step i s)"
    using assms by simp
  have ne: "worker_step i s \<noteq> None"
    using assms by simp
  show ?thesis
    using i eq ne that
    by (cases "pc (threads s ! i)")
       (auto simp: worker_step_def empty_q_def top_q_def pop_def
          split: if_splits option.splits list.splits)
qed

lemma goto_simps [simp]:
  "threads (goto i l s) = (threads s)[i := (threads s ! i)\<lparr>pc := l\<rparr>]"
  "shutdown (goto i l s) = shutdown s" "tasks (goto i l s) = tasks s" "mtx (goto i l s) = mtx s"
  "heap (goto i l s) = heap s" "vars (goto i l s) = vars s" "notifies (goto i l s) = notifies s"
  "sd (goto i l s) = sd s" "pushed (goto i l s) = pushed s" "popped (goto i l s) = popped s"
  "runs (goto i l s) = runs s" "mark (goto i l s) = mark s"
  by (simp_all add: goto_def)

lemma set_gotten_simps [simp]:
  "threads (set_gotten i g s) = (threads s)[i := (threads s ! i)\<lparr>gotten := g\<rparr>]"
  "shutdown (set_gotten i g s) = shutdown s" "tasks (set_gotten i g s) = tasks s"
  "mtx (set_gotten i g s) = mtx s" "heap (set_gotten i g s) = heap s"
  "vars (set_gotten i g s) = vars s" "notifies (set_gotten i g s) = notifies s"
  "sd (set_gotten i g s) = sd s" "pushed (set_gotten i g s) = pushed s"
  "popped (set_gotten i g s) = popped s" "runs (set_gotten i g s) = runs s"
  "mark (set_gotten i g s) = mark s"
  by (simp_all add: set_gotten_def)

lemma set_func_simps [simp]:
  "threads (set_func i t s) = (threads s)[i := (threads s ! i)\<lparr>wfunc := Some t\<rparr>]"
  "shutdown (set_func i t s) = shutdown s" "tasks (set_func i t s) = tasks s"
  "mtx (set_func i t s) = mtx s" "heap (set_func i t s) = heap s"
  "vars (set_func i t s) = vars s" "notifies (set_func i t s) = notifies s"
  "sd (set_func i t s) = sd s" "pushed (set_func i t s) = pushed s"
  "popped (set_func i t s) = popped s" "runs (set_func i t s) = runs s"
  "mark (set_func i t s) = mark s"
  by (simp_all add: set_func_def)

lemma last_notin_butlast: "distinct xs \<Longrightarrow> xs \<noteq> [] \<Longrightarrow> last xs \<notin> set (butlast xs)"
  by (induction xs) (auto dest: in_set_butlastD)


lemma popped_facts:
  assumes "global_ok s"
  shows "distinct (popped s)" "set (popped s) \<subseteq> {..<length (heap s)}"
proof -
  from assms have "popped s @ tasks s = [0..<length (heap s)]"
    unfolding global_ok_def by metis
  then have "distinct (popped s @ tasks s)" "set (popped s @ tasks s) = {..<length (heap s)}"
    by (simp_all add: lessThan_atLeast0)
  then show "distinct (popped s)" "set (popped s) \<subseteq> {..<length (heap s)}"
    by auto
qed

lemma holder_can_run:
  assumes "global_ok s" "results_ok s" "popped s \<noteq> []" "runs s = butlast (popped s)"
  shows "run_task (last (popped s)) (heap s) \<noteq> None"
proof -
  from assms(3) popped_facts(2)[OF assms(1)] have lt: "last (popped s) < length (heap s)"
    using last_in_set by blast
  from assms(3,4) popped_facts(1)[OF assms(1)] have "last (popped s) \<notin> set (runs s)"
    by (simp add: last_notin_butlast)
  with results_okD[OF assms(2) lt] have "result (heap s ! last (popped s)) = None"
    by simp
  with lt show ?thesis
    by (simp add: run_task_def split: prod.splits)
qed

lemma no_crash:
  assumes "pool_inv s" "i < length (threads s)"
  shows "\<not> ((pc (threads s ! i) = L72_top \<and> tasks s = []) \<or>
       (pc (threads s ! i) = L73_pop \<and> tasks s = []) \<or>
       (pc (threads s ! i) = L75 \<and> gotten (threads s ! i) \<and> wfunc (threads s ! i) = None) \<or>
       (pc (threads s ! i) = In_task \<and>
          (case wfunc (threads s ! i) of None \<Rightarrow> True | Some t \<Rightarrow> run_task t (heap s) = None)))"
proof (cases "holds_lock (pc (threads s ! i))")
  case False
  then show ?thesis by auto
next
  case True
  from assms(1) have G: "global_ok s" and R: "results_ok s" and H: "holder_ok s" and T: "threads_ok s"
    by (simp_all add: pool_inv_def)
  from threads_okD[OF T assms(2)] True have m: "mtx s = Some i"
    by (simp add: thread_ok_def)
  with H have Hi: "holder_inv s (threads s ! i)"
    by (simp add: holder_ok_def)
  have c: "run_task (last (popped s)) (heap s) \<noteq> None" if "holding (threads s ! i)"
    using Hi that holder_can_run[OF G R] by (simp add: holder_inv_def)
  show ?thesis
    using Hi c by (auto simp: holder_inv_def holding_def split: option.splits)
qed

lemma worker_threads_ok:
  assumes "worker_step i s = Some s'" "pool_inv s"
  shows "threads_ok s'"
proof -
  note i = worker_step_less[OF assms(1)]
  from assms(2) have G: "global_ok s" and H: "holder_ok s" and T: "threads_ok s"
    by (simp_all add: pool_inv_def)
  note Ti = threads_okD[OF T i, unfolded thread_ok_def]
  note G' = G[unfolded global_ok_def]
  show ?thesis
    unfolding threads_ok_def
  proof (intro allI impI)
    fix j assume "j < length (threads s')"
    with assms(1) have j: "j < length (threads s)"
      by (cases rule: worker_stepE) simp_all
    note Tj = threads_okD[OF T j, unfolded thread_ok_def]
    from assms(1) Ti Tj G' j no_crash[OF assms(2) i] show "thread_ok s' j (threads s' ! j)"
      by (cases rule: worker_stepE) (auto simp: thread_ok_def nth_list_update)
  qed
qed

lemma run_task_Some:
  assumes "run_task t hp = Some hp'"
  shows "t < length hp" "length hp' = length hp" "result (hp' ! t) \<noteq> None"
    "h \<noteq> t \<Longrightarrow> hp' ! h = hp ! h"
  using assms by (auto simp: run_task_def split: if_splits option.splits prod.splits)

lemma worker_global_ok:
  assumes "worker_step i s = Some s'" "pool_inv s"
  shows "global_ok s'"
proof -
  from assms(2) have G: "global_ok s"
    by (simp add: pool_inv_def)
  from assms(1) G[unfolded global_ok_def] show ?thesis
    by (cases rule: worker_stepE) (auto simp: global_ok_def run_task_Some(2))
qed

lemma worker_results_ok:
  assumes "worker_step i s = Some s'" "pool_inv s"
  shows "results_ok s'"
proof -
  from assms(2) have R: "results_ok s"
    by (simp add: pool_inv_def)
  from assms(1) show ?thesis
  proof (cases rule: worker_stepE)
    case (task_done t hp)
    note rt = run_task_Some[OF task_done(4)]
    show ?thesis
      unfolding results_ok_def
    proof (intro allI impI)
      fix h assume "h < length (heap s')"
      with task_done rt(2) have h: "h < length (heap s)" by simp
      show "(result (heap s' ! h) = None) = (h \<notin> set (runs s'))"
      proof (cases "h = t")
        case True
        with rt(3) task_done show ?thesis by simp
      next
        case False
        with rt(4)[OF False] results_okD[OF R h] task_done show ?thesis by simp
      qed
    qed
  qed (use R in \<open>simp_all add: results_ok_def\<close>)
qed

lemma worker_holder_ok:
  assumes "worker_step i s = Some s'" "pool_inv s"
  shows "holder_ok s'"
proof -
  note i = worker_step_less[OF assms(1)]
  from assms(2) have G: "global_ok s" and H: "holder_ok s" and T: "threads_ok s"
    by (simp_all add: pool_inv_def)
  note Ti = threads_okD[OF T i, unfolded thread_ok_def]
  from assms(1) Ti H no_crash[OF assms(2) i] show ?thesis
    by (cases rule: worker_stepE)
       (auto simp: holder_ok_def holder_inv_def holding_def nth_list_update
          snoc_eq_iff_butlast split: option.splits if_splits)
qed

lemma worker_pool_inv:
  assumes "worker_step i s = Some s'" "pool_inv s"
  shows "pool_inv s'"
  using worker_global_ok[OF assms] worker_results_ok[OF assms] worker_holder_ok[OF assms]
    worker_threads_ok[OF assms]
  by (simp add: pool_inv_def)

lemma runs_subset:
  assumes "pool_inv s"
  shows "set (runs s) \<subseteq> {..<length (heap s)}"
proof -
  from assms have G: "global_ok s" and H: "holder_ok s"
    by (simp_all add: pool_inv_def)
  from H have "runs s = popped s \<or> runs s = butlast (popped s)"
    by (auto simp: holder_ok_def holder_inv_def split: option.splits if_splits)
  then have "set (runs s) \<subseteq> set (popped s)"
    by (auto dest: in_set_butlastD)
  with popped_facts(2)[OF G] show ?thesis by blast
qed

lemma global_ok_frame:
  assumes "global_ok s" "popped s' = popped s" "tasks s' = tasks s" "pushed s' = pushed s"
    "length (heap s') = length (heap s)" "sd s' = sd s" "shutdown s' = shutdown s" "mark s' = mark s"
  shows "global_ok s'"
  using assms(1) unfolding global_ok_def assms(2-) .

lemma results_ok_frame:
  assumes "results_ok s" "heap s' = heap s" "runs s' = runs s"
  shows "results_ok s'"
  using assms(1) unfolding results_ok_def assms(2-) .

lemma holder_ok_frame:
  assumes "holder_ok s" "mtx s' = mtx s" "threads s' = threads s" "tasks s' = tasks s"
    "popped s' = popped s" "runs s' = runs s"
  shows "holder_ok s'"
  using assms(1) unfolding holder_ok_def holder_inv_def assms(2-) .

lemma threads_ok_frame:
  assumes "threads_ok s" "mtx s' = mtx s" "threads s' = threads s" "shutdown s' = shutdown s"
    "popped s' = popped s" "mark s' = mark s" "sd s' = sd s"
  shows "threads_ok s'"
  using assms(1) unfolding threads_ok_def thread_ok_def assms(2-) .

lemma vars_pool_inv:
  assumes "pool_inv s"
  shows "pool_inv (s\<lparr>vars := vs\<rparr>)"
proof -
  from assms have G: "global_ok s" and R: "results_ok s" and H: "holder_ok s" and T: "threads_ok s"
    by (simp_all add: pool_inv_def)
  have "global_ok (s\<lparr>vars := vs\<rparr>)"
    by (rule global_ok_frame[OF G]) simp_all
  moreover have "results_ok (s\<lparr>vars := vs\<rparr>)"
    by (rule results_ok_frame[OF R]) simp_all
  moreover have "holder_ok (s\<lparr>vars := vs\<rparr>)"
    by (rule holder_ok_frame[OF H]) simp_all
  moreover have "threads_ok (s\<lparr>vars := vs\<rparr>)"
    by (rule threads_ok_frame[OF T]) simp_all
  ultimately show ?thesis by (simp add: pool_inv_def)
qed

lemma submit_push_pool_inv:
  assumes "submit_push f args s = Some s'" "pool_inv s"
  shows "pool_inv s'"
proof -
  from assms(2) have G: "global_ok s" and R: "results_ok s" and H: "holder_ok s" and T: "threads_ok s"
    by (simp_all add: pool_inv_def)
  from assms(1) have s': "s' = s\<lparr>heap := heap s @ [\<lparr>func = bind f (map (arg_value (vars s)) args), result = None\<rparr>],
                 tasks := tasks s @ [length (heap s)],
                 pushed := pushed s @ [length (heap s)],
                 notifies := Suc (notifies s)\<rparr>"
    by (simp add: submit_push_def push_def Let_def split: if_splits)
  have "global_ok s'"
    using G[unfolded global_ok_def] by (auto simp: s' global_ok_def)
  moreover have "results_ok s'"
    unfolding results_ok_def
  proof (intro allI impI)
    fix h assume "h < length (heap s')"
    then have "h < length (heap s) \<or> h = length (heap s)"
      by (auto simp: s')
    then show "(result (heap s' ! h) = None) = (h \<notin> set (runs s'))"
    proof
      assume h: "h < length (heap s)"
      with results_okD[OF R h] show ?thesis by (simp add: s' nth_append)
    next
      assume h: "h = length (heap s)"
      with runs_subset[OF assms(2)] have "h \<notin> set (runs s)" by auto
      with h show ?thesis by (simp add: s')
    qed
  qed
  moreover have "holder_ok s'"
    using H by (auto simp: s' holder_ok_def holder_inv_def split: option.splits if_splits)
  moreover have "threads_ok s'"
    by (rule threads_ok_frame[OF T]) (simp_all add: s')
  ultimately show ?thesis by (simp add: pool_inv_def)
qed

lemma wake_one_pool_inv:
  assumes "pool_inv s" "j < length (threads s)" "pc (threads s ! j) = Waiting"
  shows "pool_inv (goto j Relock (s\<lparr>notifies := k\<rparr>))"
proof -
  let ?s' = "goto j Relock (s\<lparr>notifies := k\<rparr>)"
  from assms(1) have G: "global_ok s" and R: "results_ok s" and H: "holder_ok s" and T: "threads_ok s"
    by (simp_all add: pool_inv_def)
  have "global_ok ?s'"
    by (rule global_ok_frame[OF G]) simp_all
  moreover have "results_ok ?s'"
    by (rule results_ok_frame[OF R]) simp_all
  moreover have "holder_ok ?s'"
    using H assms(2,3)
    by (auto simp: holder_ok_def holder_inv_def holding_def nth_list_update split: option.splits if_splits)
  moreover have "threads_ok ?s'"
    unfolding threads_ok_def
  proof (intro allI impI)
    fix i assume "i < length (threads ?s')"
    then have i: "i < length (threads s)" by simp
    from threads_okD[OF T i, unfolded thread_ok_def] assms(2,3) i
    show "thread_ok ?s' i (threads ?s' ! i)"
      by (auto simp: thread_ok_def nth_list_update)
  qed
  ultimately show ?thesis by (simp add: pool_inv_def)
qed

lemma notifies_pool_inv:
  assumes "pool_inv s"
  shows "pool_inv (s\<lparr>notifies := k\<rparr>)"
proof -
  from assms have G: "global_ok s" and R: "results_ok s" and H: "holder_ok s" and T: "threads_ok s"
    by (simp_all add: pool_inv_def)
  have "global_ok (s\<lparr>notifies := k\<rparr>)"
    by (rule global_ok_frame[OF G]) simp_all
  moreover have "results_ok (s\<lparr>notifies := k\<rparr>)"
    by (rule results_ok_frame[OF R]) simp_all
  moreover have "holder_ok (s\<lparr>notifies := k\<rparr>)"
    by (rule holder_ok_frame[OF H]) simp_all
  moreover have "threads_ok (s\<lparr>notifies := k\<rparr>)"
    by (rule threads_ok_frame[OF T]) simp_all
  ultimately show ?thesis by (simp add: pool_inv_def)
qed

lemma shutdown_set_pool_inv:
  assumes "shutdown_set s = Some s'" "pool_inv s"
  shows "pool_inv s'"
proof -
  from assms(2) have G: "global_ok s" and R: "results_ok s" and H: "holder_ok s" and T: "threads_ok s"
    by (simp_all add: pool_inv_def)
  from assms(1) have nc: "sd s = Not_called"
    and s': "s' = s\<lparr>shutdown := True, sd := Flag_set, mark := length (pushed s)\<rparr>"
    by (simp_all add: shutdown_set_def split: sd_label.splits)
  have "global_ok s'"
    using G[unfolded global_ok_def] by (auto simp: s' global_ok_def)
  moreover have "results_ok s'"
    by (rule results_ok_frame[OF R]) (simp_all add: s')
  moreover have "holder_ok s'"
    by (rule holder_ok_frame[OF H]) (simp_all add: s')
  moreover have "threads_ok s'"
    unfolding threads_ok_def
  proof (intro allI impI)
    fix i assume "i < length (threads s')"
    then have i: "i < length (threads s)" by (simp add: s')
    from threads_okD[OF T i, unfolded thread_ok_def] G[unfolded global_ok_def] nc
    show "thread_ok s' i (threads s' ! i)"
      by (auto simp: thread_ok_def s')
  qed
  ultimately show ?thesis by (simp add: pool_inv_def)
qed

lemma shutdown_notify_pool_inv:
  assumes "shutdown_notify s = Some s'" "pool_inv s"
  shows "pool_inv s'"
proof -
  from assms(2) have G: "global_ok s" and R: "results_ok s" and H: "holder_ok s" and T: "threads_ok s"
    by (simp_all add: pool_inv_def)
  from assms(1) have fs: "sd s = Flag_set"
    and s': "s' = s\<lparr>threads := map wake (threads s), sd := Joining 0\<rparr>"
    by (simp_all add: shutdown_notify_def split: sd_label.splits)
  have "global_ok s'"
    using G[unfolded global_ok_def] fs by (auto simp: s' global_ok_def)
  moreover have "results_ok s'"
    by (rule results_ok_frame[OF R]) (simp_all add: s')
  moreover have "holder_ok s'"
    using H
    by (auto simp: s' holder_ok_def holder_inv_def holding_def wake_def split: option.splits if_splits)
  moreover have "threads_ok s'"
    unfolding threads_ok_def
  proof (intro allI impI)
    fix i assume "i < length (threads s')"
    then have i: "i < length (threads s)" by (simp add: s')
    from threads_okD[OF T i, unfolded thread_ok_def] i
    show "thread_ok s' i (threads s' ! i)"
      by (auto simp: thread_ok_def s' wake_def)
  qed
  ultimately show ?thesis by (simp add: pool_inv_def)
qed

lemma shutdown_join_pool_inv:
  assumes "shutdown_join s = Some s'" "pool_inv s"
  shows "pool_inv s'"
proof -
  from assms(2) have G: "global_ok s" and R: "results_ok s" and H: "holder_ok s" and T: "threads_ok s"
    by (simp_all add: pool_inv_def)
  from assms(1) obtain k where k: "sd s = Joining k"
    by (auto simp: shutdown_join_def split: sd_label.splits)
  from assms(1) k consider
      "k < length (threads s)" "pc (threads s ! k) = Exited" "s' = s\<lparr>sd := Joining (Suc k)\<rparr>"
    | "length (threads s) \<le> k" "s' = s\<lparr>sd := Returned\<rparr>"
    by (auto simp: shutdown_join_def split: if_splits)
  then have s': "popped s' = popped s" "tasks s' = tasks s" "pushed s' = pushed s" "heap s' = heap s"
    "shutdown s' = shutdown s" "mark s' = mark s" "runs s' = runs s" "mtx s' = mtx s"
    "threads s' = threads s" "sd s' \<noteq> Not_called"
    and j: "\<And>i. i < length (threads s) \<Longrightarrow> joined (sd s') i \<Longrightarrow> joined (sd s) i \<or> pc (threads s ! i) = Exited"
    using k by (cases; auto simp: less_Suc_eq)+
  have "global_ok s'"
    using G[unfolded global_ok_def] k s' by (auto simp: global_ok_def)
  moreover have "results_ok s'"
    by (rule results_ok_frame[OF R]) (simp_all add: s')
  moreover have "holder_ok s'"
    by (rule holder_ok_frame[OF H]) (simp_all add: s')
  moreover have "threads_ok s'"
    unfolding threads_ok_def
  proof (intro allI impI)
    fix i assume "i < length (threads s')"
    then have i: "i < length (threads s)" by (simp add: s')
    from threads_okD[OF T i, unfolded thread_ok_def] j[OF i]
    show "thread_ok s' i (threads s' ! i)"
      by (auto simp: thread_ok_def s')
  qed
  ultimately show ?thesis by (simp add: pool_inv_def)
qed

lemma step_pool_inv:
  assumes "step e s = Some s'" "pool_inv s"
  shows "pool_inv s'"
proof (cases e)
  case (Declare v)
  with assms show ?thesis by (auto simp: declare_var_def vars_pool_inv)
next
  case (Assign a v)
  with assms show ?thesis by (auto simp: assign_var_def vars_pool_inv split: if_splits)
next
  case (Submit_push f args)
  with assms show ?thesis by (simp add: submit_push_pool_inv)
next
  case (Submit_notify j)
  with assms show ?thesis
    by (auto simp: submit_notify_def notifies_pool_inv wake_one_pool_inv split: if_splits)
next
  case Shutdown_set
  with assms show ?thesis by (simp add: shutdown_set_pool_inv)
next
  case Shutdown_notify
  with assms show ?thesis by (simp add: shutdown_notify_pool_inv)
next
  case Shutdown_join
  with assms show ?thesis by (simp add: shutdown_join_pool_inv)
next
  case (Worker i)
  with assms show ?thesis by (simp add: worker_pool_inv)
next
  case (Spurious j)
  with assms have j: "j < length (threads s)" "pc (threads s ! j) = Waiting"
    and s': "s' = goto j Relock s"
    by (auto simp: spurious_def split: if_splits)
  from wake_one_pool_inv[OF assms(2) j, of "notifies s"] s' show ?thesis
    by simp
qed

lemma exec_pool_inv: "exec evs s = Some s' \<Longrightarrow> pool_inv s \<Longrightarrow> pool_inv s'"
  by (induction evs arbitrary: s) (auto split: option.splits dest: step_pool_inv)

lemma reachable_inv: "exec evs (init n) = Some s \<Longrightarrow> pool_inv s"
  using exec_pool_inv pool_inv_init by blast

section \<open>Properties of the pool\<close>

lemmas run_simps = init_def new_worker_def worker_step_def submit_push_def submit_notify_def
  shutdown_set_def shutdown_notify_def shutdown_join_def spurious_def declare_var_def
  assign_var_def wake_def push_def pop_def top_q_def empty_q_def run_task_def invoke_def
  bind_def goto_def set_gotten_def set_func_def get_def submit_future_def

lemma step_length: "step e s = Some s' \<Longrightarrow> length (threads s') = length (threads s)"
proof (cases e)
  case (Worker i)
  assume "step e s = Some s'"
  with Worker have "worker_step i s = Some s'" by simp
  then show ?thesis by (cases rule: worker_stepE) simp_all
qed (auto simp: declare_var_def assign_var_def submit_push_def submit_notify_def
       shutdown_set_def shutdown_notify_def shutdown_join_def spurious_def Let_def
       split: if_splits sd_label.splits)

lemma exec_length: "exec evs s = Some s' \<Longrightarrow> length (threads s') = length (threads s)"
  by (induction evs arbitrary: s) (auto split: option.splits dest: step_length)

lemma count_list_upt: "count_list [i..<j] h = (if i \<le> h \<and> h < j then 1 else 0)"
  by (induction j) auto

lemma take_upt_min: "take k [0..<m] = [0..<min k m]"
  by (cases "k \<le> m") (simp_all add: take_upt min_def)

lemma prefix_upt:
  assumes "xs @ ys = [0..<m]"
  shows "xs = [0..<length xs]" "length xs \<le> m" "set ys = {length xs..<m}"
proof -
  from assms have l: "length xs + length ys = m"
    by (metis length_append length_upt minus_nat.diff_0)
  then show "length xs \<le> m" by simp
  from assms have "xs = take (length xs) [0..<m]"
    by (metis append_eq_conv_conj)
  with l show xs: "xs = [0..<length xs]" by (simp add: take_upt)
  from assms have "ys = drop (length xs) [0..<m]"
    by (metis append_eq_conv_conj)
  then show "set ys = {length xs..<m}" by (simp add: drop_upt)
qed

text \<open>
  C8: \<^verbatim>\<open>top\<close> and \<^verbatim>\<open>pop\<close> need a non-empty queue. In every state that the pool can
  reach, a worker that stands before the call of \<^verbatim>\<open>top\<close> (line 72) or of \<^verbatim>\<open>pop\<close> (line 73)
  sees a non-empty queue, so neither call is undefined, and no worker ever reaches the
  undefined branch.
\<close>

theorem dequeue_precondition:
  assumes "exec evs (init n) = Some s" "i < length (threads s)"
  shows "pc (threads s ! i) \<noteq> Crashed \<and>
     (pc (threads s ! i) = L72_top \<longrightarrow> top_q (tasks s) \<noteq> None) \<and>
     (pc (threads s ! i) = L73_pop \<longrightarrow> pop (tasks s) \<noteq> None)"
proof -
  note I = reachable_inv[OF assms(1)]
  then have T: "threads_ok s" by (simp add: pool_inv_def)
  from threads_okD[OF T assms(2)] no_crash[OF I assms(2)] show ?thesis
    by (auto simp: thread_ok_def top_q_def pop_def split: list.splits)
qed

theorem dequeue_precondition_witness:
  "exec [Submit_push addition_return [Val 1, Val 2], Worker 0, Worker 0,
        Worker 0, Worker 0] (init (Suc 0)) \<noteq> None \<and>
   pc (threads (the (exec [Submit_push addition_return [Val 1, Val 2], Worker 0, Worker 0,
        Worker 0, Worker 0] (init (Suc 0)))) ! 0) = L72_top \<and>
   top_q (tasks (the (exec [Submit_push addition_return [Val 1, Val 2], Worker 0, Worker 0,
        Worker 0, Worker 0] (init (Suc 0))))) \<noteq> None"
  using dequeue_precondition[of "[Submit_push addition_return [Val 1, Val 2], Worker 0, Worker 0,
        Worker 0, Worker 0]" "Suc 0" "the (exec [Submit_push addition_return [Val 1, Val 2], Worker 0, Worker 0,
        Worker 0, Worker 0] (init (Suc 0)))" 0]
  by (simp add: run_simps)

text \<open>
  C5: the queue is first-in first-out. In every reachable state the tasks popped so far,
  in the order of the pops, followed by the queue are the tasks pushed so far, in the order
  of the pushes: the k-th pop removed the k-th task pushed. A worker between \<^verbatim>\<open>top\<close> and
  \<^verbatim>\<open>pop\<close> holds in \<^verbatim>\<open>func\<close> the head that its \<^verbatim>\<open>pop\<close> is about to remove.
\<close>

theorem fifo_dequeue:
  assumes "exec evs (init n) = Some s"
  shows "popped s @ tasks s = pushed s \<and> distinct (pushed s) \<and>
     (\<forall>k<length (popped s). popped s ! k = pushed s ! k) \<and>
     (\<forall>i<length (threads s). pc (threads s ! i) = L73_pop \<longrightarrow>
        tasks s \<noteq> [] \<and> wfunc (threads s ! i) = top_q (tasks s))"
proof -
  note I = reachable_inv[OF assms]
  then have G: "global_ok s" and H: "holder_ok s" and T: "threads_ok s"
    by (simp_all add: pool_inv_def)
  from G have a: "popped s @ tasks s = pushed s" and b: "pushed s = [0..<length (heap s)]"
    unfolding global_ok_def by blast+
  from b have d: "distinct (pushed s)" by simp
  have c: "\<forall>k<length (popped s). popped s ! k = pushed s ! k"
    using a by (metis nth_append)
  have e: "tasks s \<noteq> [] \<and> wfunc (threads s ! i) = top_q (tasks s)"
    if "i < length (threads s)" "pc (threads s ! i) = L73_pop" for i
  proof -
    from threads_okD[OF T that(1)] that(2) have "mtx s = Some i"
      by (simp add: thread_ok_def)
    with H that(2) show ?thesis
      by (auto simp: holder_ok_def holder_inv_def top_q_def split: list.splits)
  qed
  from a d c e show ?thesis by blast
qed

theorem fifo_dequeue_witness:
  "exec two_tasks_one_pop (init (Suc 0)) \<noteq> None \<and>
   pushed (the (exec two_tasks_one_pop (init (Suc 0)))) = [0, 1] \<and>
   popped (the (exec two_tasks_one_pop (init (Suc 0)))) = [0] \<and>
   tasks (the (exec two_tasks_one_pop (init (Suc 0)))) = [1]"
  using fifo_dequeue[of two_tasks_one_pop "Suc 0" "the (exec two_tasks_one_pop (init (Suc 0)))"]
  by (simp add: two_tasks_one_pop_def run_simps)

text \<open>
  C1, as amended: in a pool with at least one worker, when \<^verbatim>\<open>shutdown\<close> has returned,
  every task that was pushed before \<^verbatim>\<open>shutdown\<close> wrote the flag has been executed exactly
  once, is no longer in the queue, and its future is ready.
\<close>

theorem no_loss_on_shutdown:
  assumes "exec evs (init n) = Some s" "0 < n" "sd s = Returned"
    "h \<in> set (take (mark s) (pushed s))"
  shows "count_list (runs s) h = 1 \<and> h \<notin> set (tasks s) \<and> get h s \<noteq> None"
proof -
  note I = reachable_inv[OF assms(1)]
  then have G: "global_ok s" and R: "results_ok s" and H: "holder_ok s" and T: "threads_ok s"
    by (simp_all add: pool_inv_def)
  from G have a: "popped s @ tasks s = pushed s" and b: "pushed s = [0..<length (heap s)]"
    unfolding global_ok_def by blast+
  note p = prefix_upt[OF a[unfolded b]]
  have ex: "pc (threads s ! i) = Exited \<and> mark s \<le> length (popped s)"
    if "i < length (threads s)" for i
    using threads_okD[OF T that] assms(3) by (simp add: thread_ok_def)
  have n: "length (threads s) = n"
    using exec_length[OF assms(1)] by (simp add: init_def)
  from ex[of 0] n assms(2) have m: "mark s \<le> length (popped s)" by simp
  have r: "runs s = popped s"
  proof (cases "mtx s")
    case None
    with H show ?thesis by (simp add: holder_ok_def)
  next
    case (Some i)
    with H have "i < length (threads s)" "holds_lock (pc (threads s ! i))"
      by (simp_all add: holder_ok_def holder_inv_def)
    with ex[of i] show ?thesis by simp
  qed
  from assms(4) have "h \<in> set (take (mark s) [0..<length (heap s)])"
    by (simp add: b)
  then have "h < mark s"
    by (simp add: take_upt_min)
  with m have hp: "h < length (popped s)" by simp
  with p(2) have hh: "h < length (heap s)" by simp
  from r p(1) have r': "runs s = [0..<length (popped s)]" by simp
  have "count_list (runs s) h = 1"
    using hp by (subst r') (simp add: count_list_upt)
  moreover from p(3) hp have "h \<notin> set (tasks s)" by simp
  moreover have "h \<in> set (runs s)"
    using hp by (subst r') simp
  with results_okD[OF R hh] hh have "get h s \<noteq> None"
    by (simp add: get_def)
  ultimately show ?thesis by simp
qed

theorem no_loss_on_shutdown_witness:
  "exec one_task_shutdown (init (Suc 0)) \<noteq> None \<and>
   sd (the (exec one_task_shutdown (init (Suc 0)))) = Returned \<and>
   0 \<in> set (take (mark (the (exec one_task_shutdown (init (Suc 0)))))
                 (pushed (the (exec one_task_shutdown (init (Suc 0)))))) \<and>
   count_list (runs (the (exec one_task_shutdown (init (Suc 0))))) 0 = 1 \<and>
   get 0 (the (exec one_task_shutdown (init (Suc 0)))) = Some (Inr (RInt 3))"
  using no_loss_on_shutdown[of one_task_shutdown "Suc 0"
      "the (exec one_task_shutdown (init (Suc 0)))" 0]
  by (simp add: one_task_shutdown_def run_simps)

text \<open>
  The claim as stated fails for a pool without workers: \<^verbatim>\<open>shutdown\<close> returns, and the
  task pushed before it is still queued and was never executed.
\<close>

theorem no_loss_on_shutdown_counterexample:
  "sd (the (exec no_worker_shutdown (init 0))) = Returned \<and>
   0 \<in> set (take (mark (the (exec no_worker_shutdown (init 0))))
                 (pushed (the (exec no_worker_shutdown (init 0))))) \<and>
   count_list (runs (the (exec no_worker_shutdown (init 0)))) 0 = 0 \<and>
   tasks (the (exec no_worker_shutdown (init 0))) = [0] \<and>
   get 0 (the (exec no_worker_shutdown (init 0))) = None"
  by (simp add: no_worker_shutdown_def run_simps)

text \<open>
  C2: the claim is that a worker never blocks on the condition variable while the queue is
  non-empty or the flag is set. The code checks the predicate under the pool's mutex, but
  \<^verbatim>\<open>submit\<close> pushes under the queue's own mutex and \<^verbatim>\<open>shutdown\<close> writes the flag
  under no mutex. In the first schedule the worker ends blocked with the flag set, while
  \<^verbatim>\<open>shutdown\<close> waits in \<^verbatim>\<open>join\<close>: neither can move. In the second the worker ends
  blocked with a task in the queue and no notification pending.
\<close>

theorem worker_blocks_after_signal:
  "pc (threads (the (exec lost_wakeup_shutdown (init (Suc 0)))) ! 0) = Waiting \<and>
   shutdown (the (exec lost_wakeup_shutdown (init (Suc 0)))) \<and>
   sd (the (exec lost_wakeup_shutdown (init (Suc 0)))) = Joining 0 \<and>
   step (Worker 0) (the (exec lost_wakeup_shutdown (init (Suc 0)))) = None \<and>
   step Shutdown_join (the (exec lost_wakeup_shutdown (init (Suc 0)))) = None \<and>
   pc (threads (the (exec lost_wakeup_submit (init (Suc 0)))) ! 0) = Waiting \<and>
   tasks (the (exec lost_wakeup_submit (init (Suc 0)))) = [0] \<and>
   notifies (the (exec lost_wakeup_submit (init (Suc 0)))) = 0 \<and>
   step (Worker 0) (the (exec lost_wakeup_submit (init (Suc 0)))) = None"
  by (simp add: lost_wakeup_shutdown_def lost_wakeup_submit_def run_simps)

text \<open>
  In every reachable state a worker inside a task owns the pool's mutex, and no other worker
  is between lock and unlock.
\<close>

lemma in_task_holds_lock:
  assumes "exec evs (init n) = Some s" "i < length (threads s)" "pc (threads s ! i) = In_task"
  shows "mtx s = Some i \<and> (\<forall>j<length (threads s). j \<noteq> i \<longrightarrow> \<not> holds_lock (pc (threads s ! j)))"
proof -
  from reachable_inv[OF assms(1)] have T: "threads_ok s" by (simp add: pool_inv_def)
  from threads_okD[OF T assms(2)] assms(3) have m: "mtx s = Some i"
    by (simp add: thread_ok_def)
  have "\<not> holds_lock (pc (threads s ! j))" if "j < length (threads s)" "j \<noteq> i" for j
    using threads_okD[OF T that(1)] m that(2) by (auto simp: thread_ok_def)
  with m show ?thesis by blast
qed

text \<open>
  C3: the claim is that the worker releases the pool's mutex before it calls the task, so
  that another worker can take the mutex and dequeue while the task runs. The
  \<^verbatim>\<open>unique_lock\<close> of line 67 lives until the end of the loop body, which includes the call
  of line 75. In the schedule \<open>task_under_lock\<close> worker 0 is inside its task and owns the
  mutex, the second task is queued, and worker 1 stands at the lock and cannot move.
\<close>

theorem task_runs_under_lock:
  "pc (threads (the (exec task_under_lock (init (Suc (Suc 0))))) ! 0) = In_task \<and>
   mtx (the (exec task_under_lock (init (Suc (Suc 0))))) = Some 0 \<and>
   tasks (the (exec task_under_lock (init (Suc (Suc 0))))) = [1] \<and>
   pc (threads (the (exec task_under_lock (init (Suc (Suc 0))))) ! 1) = L67_lock \<and>
   step (Worker 1) (the (exec task_under_lock (init (Suc (Suc 0))))) = None"
  by (simp add: task_under_lock_def run_simps)

text \<open>Without workers nothing is ever popped or run.\<close>

lemma zero_step:
  assumes "step e s = Some s'" "threads s = []"
  shows "popped s' = popped s \<and> runs s' = runs s"
proof (cases e)
  case (Worker i)
  with assms show ?thesis by (simp add: worker_step_def)
qed (use assms in \<open>auto simp: declare_var_def assign_var_def submit_push_def submit_notify_def
       shutdown_set_def shutdown_notify_def shutdown_join_def spurious_def Let_def goto_def
       split: if_splits sd_label.splits\<close>)

lemma zero_exec:
  "exec evs s = Some s' \<Longrightarrow> threads s = [] \<Longrightarrow> popped s' = popped s \<and> runs s' = runs s"
proof (induction evs arbitrary: s)
  case Nil
  then show ?case by simp
next
  case (Cons e evs)
  from Cons.prems(1) obtain s1 where s1: "step e s = Some s1" "exec evs s1 = Some s'"
    by (auto split: option.splits)
  from step_length[OF s1(1)] Cons.prems(2) have "threads s1 = []" by simp
  from Cons.IH[OF s1(2) this] zero_step[OF s1(1) Cons.prems(2)] show ?case by simp
qed

text \<open>Destroying the queue abandons exactly the queued tasks that have no outcome.\<close>

lemma abandon_length [simp]: "length (abandon h hp) = length hp"
  by (simp add: abandon_def)

lemma fold_abandon:
  "length (fold abandon ts hp) = length hp \<and>
   (\<forall>h<length hp. result (fold abandon ts hp ! h) =
      (if h \<in> set ts \<and> result (hp ! h) = None then Some (Inl Broken_promise)
       else result (hp ! h)))"
proof (induction ts arbitrary: hp)
  case Nil
  show ?case by simp
next
  case (Cons t ts)
  have a: "\<forall>h<length hp. result (abandon t hp ! h) =
      (if h = t \<and> result (hp ! h) = None then Some (Inl Broken_promise) else result (hp ! h))"
    by (auto simp: abandon_def nth_list_update)
  from Cons.IH[of "abandon t hp"] a show ?case
    by auto
qed

text \<open>
  C10, as amended: a pool constructed with thread count 0 has no workers. In every state
  that it reaches, whatever is submitted stays in the queue, nothing has been executed and
  no future is ready; \<^verbatim>\<open>submit\<close> still pushes its task and returns the future; and
  \<^verbatim>\<open>shutdown\<close> runs to its return without waiting for anything, the queue unchanged. The
  futures stay unready as long as the pool exists: destroying the pool destroys the queued
  tasks, still unexecuted, and makes each of their futures ready with \<^verbatim>\<open>broken_promise\<close>.
\<close>

theorem zero_thread_pool:
  assumes "exec evs (init 0) = Some s"
  shows "ThreadPool m 0 = Inr (init 0) \<and> threads s = [] \<and>
     tasks s = pushed s \<and> runs s = [] \<and> (\<forall>h. get h s = None) \<and>
     (\<forall>f args. list_all (arg_ok (vars s)) args \<longrightarrow>
        (\<exists>s'. step (Submit_push f args) s = Some s' \<and> tasks s' = tasks s @ [submit_future s])) \<and>
     (sd s = Not_called \<longrightarrow>
        (\<exists>s'. exec [Shutdown_set, Shutdown_notify, Shutdown_join] s = Some s' \<and>
           sd s' = Returned \<and> tasks s' = tasks s)) \<and>
     (\<exists>s'. destroy s = Some s' \<and> runs s' = [] \<and>
        (\<forall>h \<in> set (pushed s). get h s' = Some (Inl Broken_promise)))"
proof -
  have a: "ThreadPool m 0 = Inr (init 0)"
    by (simp add: ThreadPool_def)
  from exec_length[OF assms] have t: "threads s = []"
    by (simp add: init_def)
  from zero_exec[OF assms] have pr: "popped s = []" "runs s = []"
    by (simp_all add: init_def)
  from reachable_inv[OF assms] have G: "global_ok s" and R: "results_ok s"
    by (simp_all add: pool_inv_def)
  from G pr have q: "tasks s = pushed s" and p: "pushed s = [0..<length (heap s)]"
    by (simp_all add: global_ok_def)
  have g: "get h s = None" for h
    using results_okD[OF R, of h] pr by (simp add: get_def)
  have sub: "\<exists>s'. step (Submit_push f args) s = Some s' \<and> tasks s' = tasks s @ [submit_future s]"
    if "list_all (arg_ok (vars s)) args" for f args
    using that by (simp add: submit_push_def push_def submit_future_def Let_def)
  have sdn: "\<exists>s'. exec [Shutdown_set, Shutdown_notify, Shutdown_join] s = Some s' \<and>
           sd s' = Returned \<and> tasks s' = tasks s" if "sd s = Not_called"
    using that t by (simp add: shutdown_set_def shutdown_notify_def shutdown_join_def)
  let ?s' = "s\<lparr>heap := fold abandon (tasks s) (heap s), tasks := []\<rparr>"
  have d: "destroy s = Some ?s'"
    using t by (simp add: destroy_def)
  have "get h ?s' = Some (Inl Broken_promise)" if "h \<in> set (pushed s)" for h
  proof -
    from that p have h: "h < length (heap s)" by simp
    with results_okD[OF R h] pr have "result (heap s ! h) = None" by simp
    with fold_abandon[of "tasks s" "heap s"] h that q show ?thesis
      by (simp add: get_def)
  qed
  with d pr have des: "\<exists>s'. destroy s = Some s' \<and> runs s' = [] \<and>
        (\<forall>h \<in> set (pushed s). get h s' = Some (Inl Broken_promise))"
    by simp
  from a t q pr g sub sdn des show ?thesis by blast
qed

theorem zero_thread_pool_witness:
  "exec no_worker_shutdown (init 0) \<noteq> None \<and>
   ThreadPool (2 ^ 60 - 1) 0 = Inr (init 0) \<and>
   tasks (the (exec no_worker_shutdown (init 0))) = [0] \<and>
   sd (the (exec no_worker_shutdown (init 0))) = Returned \<and>
   get 0 (the (exec no_worker_shutdown (init 0))) = None \<and>
   destroy (the (exec no_worker_shutdown (init 0))) \<noteq> None \<and>
   runs (the (destroy (the (exec no_worker_shutdown (init 0))))) = []"
  using zero_thread_pool[of no_worker_shutdown "the (exec no_worker_shutdown (init 0))" "2 ^ 60 - 1"]
  by (simp add: no_worker_shutdown_def run_simps destroy_def abandon_def)

text \<open>
  The claim as stated fails: the future does not stay unready for ever. After
  \<^verbatim>\<open>shutdown\<close> has returned with the task in the queue, the destruction of the pool
  makes the future ready (with an error).
\<close>

theorem handle_ready_after_destruction:
  "sd (the (exec no_worker_shutdown (init 0))) = Returned \<and>
   tasks (the (exec no_worker_shutdown (init 0))) = [0] \<and>
   get 0 (the (exec no_worker_shutdown (init 0))) = None \<and>
   get 0 (the (destroy (the (exec no_worker_shutdown (init 0))))) = Some (Inl Broken_promise)"
  by (simp add: no_worker_shutdown_def run_simps destroy_def abandon_def)

text \<open>
  C6, as amended: the constructor rejects a negative thread count (converted to the size
  type it exceeds \<^verbatim>\<open>max_size()\<close>, which is at most \<^verbatim>\<open>PTRDIFF_MAX\<close>, and the vector's
  constructor throws), and accepts every other count up to \<^verbatim>\<open>max_size()\<close>, zero included,
  with as many workers as the count says.
\<close>

theorem construction:
  assumes "m < 2 ^ 63"
  shows "(sint n < 0 \<longrightarrow> ThreadPool m n = Inl Length_error) \<and>
     (0 \<le> sint n \<and> nat (sint n) \<le> m \<longrightarrow>
        ThreadPool m n = Inr (init (nat (sint n))) \<and>
        length (threads (init (nat (sint n)))) = nat (sint n))"
proof -
  define M :: int where "M = 2 ^ 64"
  have r: "- (2 ^ 31) \<le> sint n" "sint n < 2 ^ 31"
    using sint_ge[of n] sint_lt[of n] by simp_all
  have M: "(2::int) ^ 63 + 2 ^ 31 \<le> M" "(2::int) ^ 31 < M"
    by (simp_all add: M_def)
  have "uint (word_of_int (sint n) :: 64 word) = sint n mod 2 ^ LENGTH(64)"
    by (rule uint_word_of_int)
  then have "uint (word_of_int (sint n) :: 64 word) = sint n mod M"
    by (simp only: M_def len_num1 len_bit0 mult_numeral_1_right numeral_times_numeral
        semiring_norm)
  then have u: "unat (word_of_int (sint n) :: 64 word) = nat (sint n mod M)"
    by (simp only: unat_eq_nat_uint)
  from assms have m: "int m < 2 ^ 63"
    by (metis of_nat_less_iff of_nat_numeral of_nat_power)
  have neg: "ThreadPool m n = Inl Length_error" if "sint n < 0"
  proof -
    from that r M have "0 \<le> sint n + M" "sint n + M < M" by linarith+
    then have "(sint n + M) mod M = sint n + M"
      by (rule mod_pos_pos_trivial)
    then have "sint n mod M = sint n + M" by simp
    moreover from r M m have "int m < sint n + M" by linarith
    ultimately have "m < nat (sint n mod M)" by simp
    then show ?thesis unfolding ThreadPool_def Let_def u by simp
  qed
  have pos: "ThreadPool m n = Inr (init (nat (sint n)))" if "0 \<le> sint n" "nat (sint n) \<le> m"
  proof -
    from that r M have "sint n mod M = sint n"
      by (intro mod_pos_pos_trivial) linarith+
    with that show ?thesis unfolding ThreadPool_def Let_def u by simp
  qed
  show ?thesis using neg pos by (simp add: init_def)
qed

theorem construction_witness:
  "(2 ^ 60 - 1 :: nat) < 2 ^ 63 \<and> ThreadPool (2 ^ 60 - 1) (- 1) = Inl Length_error \<and>
   ThreadPool (2 ^ 60 - 1) 5 = Inr (init 5) \<and> ThreadPool (2 ^ 60 - 1) 0 = Inr (init 0)"
  using construction[of "2 ^ 60 - 1" "- 1"] construction[of "2 ^ 60 - 1" 5]
    construction[of "2 ^ 60 - 1" 0]
  by simp

text \<open>The claim as stated fails at thread count 0: construction succeeds, with no workers.\<close>

theorem zero_threads_accepted:
  "ThreadPool (2 ^ 60 - 1) 0 = Inr (init 0) \<and> threads (init 0) = []"
  by (simp add: ThreadPool_def init_def)

subsection \<open>What a future yields\<close>

lemma run_task_done:
  assumes "run_task t hp = Some hp'"
  shows "result (hp ! t) = None" "hp' ! t = done_task (hp ! t)"
  using assms
  by (auto simp: run_task_def done_task_def split: if_splits option.splits prod.splits)

lemma step_heap:
  assumes "step e s = Some s'" "h < length (heap s)"
  shows "h < length (heap s') \<and>
     (heap s' ! h = heap s ! h \<or>
      (result (heap s ! h) = None \<and> heap s' ! h = done_task (heap s ! h)))"
proof (cases e)
  case (Worker i)
  with assms(1) have "worker_step i s = Some s'" by simp
  then show ?thesis
  proof (cases rule: worker_stepE)
    case (task_done t hp)
    from run_task_Some[OF task_done(4)] run_task_done[OF task_done(4)] task_done(5) assms(2)
    show ?thesis by (cases "h = t") auto
  qed (use assms(2) in simp_all)
qed (use assms in \<open>auto simp: declare_var_def assign_var_def submit_push_def submit_notify_def
       shutdown_set_def shutdown_notify_def shutdown_join_def spurious_def Let_def nth_append
       split: if_splits sd_label.splits\<close>)

lemma exec_done:
  "exec evs s = Some s' \<Longrightarrow> h < length (heap s) \<Longrightarrow> result (heap s ! h) \<noteq> None \<Longrightarrow>
     h < length (heap s') \<and> heap s' ! h = heap s ! h"
proof (induction evs arbitrary: s)
  case Nil
  then show ?case by simp
next
  case (Cons e evs)
  from Cons.prems(1) obtain s1 where s1: "step e s = Some s1" "exec evs s1 = Some s'"
    by (auto split: option.splits)
  from step_heap[OF s1(1) Cons.prems(2)] Cons.prems(3)
  have a: "h < length (heap s1)" "heap s1 ! h = heap s ! h" by auto
  with Cons.IH[OF s1(2) a(1)] Cons.prems(3) show ?case by simp
qed

lemma exec_heap:
  "exec evs s = Some s' \<Longrightarrow> h < length (heap s) \<Longrightarrow> result (heap s ! h) = None \<Longrightarrow>
     h < length (heap s') \<and> (heap s' ! h = heap s ! h \<or> heap s' ! h = done_task (heap s ! h))"
proof (induction evs arbitrary: s)
  case Nil
  then show ?case by simp
next
  case (Cons e evs)
  from Cons.prems(1) obtain s1 where s1: "step e s = Some s1" "exec evs s1 = Some s'"
    by (auto split: option.splits)
  from step_heap[OF s1(1) Cons.prems(2)]
  have a: "h < length (heap s1)"
    and b: "heap s1 ! h = heap s ! h \<or> heap s1 ! h = done_task (heap s ! h)" by auto
  from b show ?case
  proof
    assume eq: "heap s1 ! h = heap s ! h"
    with Cons.IH[OF s1(2) a] Cons.prems(3) show ?thesis by simp
  next
    assume eq: "heap s1 ! h = done_task (heap s ! h)"
    then have "result (heap s1 ! h) \<noteq> None" by (simp add: done_task_def)
    from exec_done[OF s1(2) a this] eq show ?thesis by simp
  qed
qed

lemma submitted_task:
  assumes "step (Submit_push f args) s1 = Some s2" "exec evs2 s2 = Some s"
  shows "submit_future s1 < length (heap s) \<and>
     (heap s ! submit_future s1 = \<lparr>func = bind f (map (arg_value (vars s1)) args), result = None\<rparr> \<or>
      heap s ! submit_future s1 =
        \<lparr>func = \<lparr>fn = f, bound = snd (f (map (arg_value (vars s1)) args))\<rparr>,
         result = Some (fst (f (map (arg_value (vars s1)) args)))\<rparr>)"
proof -
  let ?h = "submit_future s1"
  from assms(1) have h: "?h < length (heap s2)"
    and t: "heap s2 ! ?h = \<lparr>func = bind f (map (arg_value (vars s1)) args), result = None\<rparr>"
    by (auto simp: submit_push_def submit_future_def Let_def split: if_splits)
  from t have "result (heap s2 ! ?h) = None" by simp
  from exec_heap[OF assms(2) h this] t show ?thesis
    by (auto simp: done_task_def invoke_def bind_def split: prod.splits)
qed

lemma exec_append:
  "exec (evs1 @ evs2) s = (case exec evs1 s of None \<Rightarrow> None | Some s1 \<Rightarrow> exec evs2 s1)"
  by (induction evs1 arbitrary: s) (auto split: option.splits)

lemma step_vars:
  assumes "step e s = Some s'" "\<not> assigns_to c e" "c < length (vars s)"
  shows "c < length (vars s') \<and> vars s' ! c = vars s ! c"
proof (cases e)
  case (Worker i)
  with assms(1) have "worker_step i s = Some s'" by simp
  then show ?thesis by (cases rule: worker_stepE) (use assms(3) in simp_all)
qed (use assms in \<open>auto simp: declare_var_def assign_var_def submit_push_def submit_notify_def
       shutdown_set_def shutdown_notify_def shutdown_join_def spurious_def Let_def nth_append
       split: if_splits sd_label.splits\<close>)

lemma exec_vars:
  "exec evs s = Some s' \<Longrightarrow> \<not> list_ex (assigns_to c) evs \<Longrightarrow> c < length (vars s) \<Longrightarrow>
     c < length (vars s') \<and> vars s' ! c = vars s ! c"
proof (induction evs arbitrary: s)
  case Nil
  then show ?case by simp
next
  case (Cons e evs)
  from Cons.prems(1) obtain s1 where s1: "step e s = Some s1" "exec evs s1 = Some s'"
    by (auto split: option.splits)
  from Cons.prems(2) have n: "\<not> assigns_to c e" "\<not> list_ex (assigns_to c) evs" by simp_all
  from step_vars[OF s1(1) n(1) Cons.prems(3)] Cons.IH[OF s1(2) n(2)] show ?case by simp
qed

text \<open>
  \<^verbatim>\<open>submit\<close> binds the values that the arguments have at the call. Whatever happens
  after the push (assignments to the variables included), an outcome read from the returned
  future is the callable applied to the values of the arguments at the push. On the
  schedule \<open>scenario1\<close> (one worker, \<^verbatim>\<open>f(x) = x * 2\<close> for \<^verbatim>\<open>x\<close> from 1 to 10, all
  submissions before the worker's first step) the ten futures yield 2, 4, ..., 20.
\<close>

theorem submit_binds_at_submission:
  assumes "exec evs1 (init n) = Some s1" "step (Submit_push f args) s1 = Some s2"
    "exec evs2 s2 = Some s" "get (submit_future s1) s = Some r"
  shows "r = fst (f (map (arg_value (vars s1)) args)) \<and>
     map (\<lambda>h. get h (the (exec scenario1 (init (Suc 0))))) [0..<10] =
       [Some (Inr (RInt 2)), Some (Inr (RInt 4)), Some (Inr (RInt 6)), Some (Inr (RInt 8)),
        Some (Inr (RInt 10)), Some (Inr (RInt 12)), Some (Inr (RInt 14)), Some (Inr (RInt 16)),
        Some (Inr (RInt 18)), Some (Inr (RInt 20))]"
proof -
  from submitted_task[OF assms(2,3)] assms(4)
  have "r = fst (f (map (arg_value (vars s1)) args))"
    by (auto simp: get_def)
  moreover have "map (\<lambda>h. get h (the (exec scenario1 (init (Suc 0))))) [0..<10] =
       [Some (Inr (RInt 2)), Some (Inr (RInt 4)), Some (Inr (RInt 6)), Some (Inr (RInt 8)),
        Some (Inr (RInt 10)), Some (Inr (RInt 12)), Some (Inr (RInt 14)), Some (Inr (RInt 16)),
        Some (Inr (RInt 18)), Some (Inr (RInt 20))]"
    by code_simp
  ultimately show ?thesis by simp
qed

theorem submit_binds_at_submission_witness:
  "exec [Declare 5] (init (Suc 0)) \<noteq> None \<and>
   step (Submit_push times2 [Var 0]) (the (exec [Declare 5] (init (Suc 0)))) \<noteq> None \<and>
   exec (Assign 0 100 # iteration)
     (the (step (Submit_push times2 [Var 0]) (the (exec [Declare 5] (init (Suc 0)))))) \<noteq> None \<and>
   get 0 (the (exec (Assign 0 100 # iteration)
     (the (step (Submit_push times2 [Var 0]) (the (exec [Declare 5] (init (Suc 0)))))))) =
     Some (Inr (RInt 10))"
  using submit_binds_at_submission[of "[Declare 5]" "Suc 0" "the (exec [Declare 5] (init (Suc 0)))"
      times2 "[Var 0]" "the (step (Submit_push times2 [Var 0]) (the (exec [Declare 5] (init (Suc 0)))))"
      "Assign 0 100 # iteration"
      "the (exec (Assign 0 100 # iteration)
         (the (step (Submit_push times2 [Var 0]) (the (exec [Declare 5] (init (Suc 0)))))))"
      "Inr (RInt 10)"]
  by (simp add: iteration_def run_simps)

text \<open>
  C7: the claim is that the future returned by \<^verbatim>\<open>submit\<close> eventually yields the callable
  applied to the values bound at submission, and that scenario 1 yields 2, 4, ..., 20. The
  values are bound as claimed, but the future need not become ready. In the schedule
  \<open>scenario1_lost_wakeup\<close> the single worker has evaluated the condition of line 68 when
  the ten tasks are pushed, and calls \<^verbatim>\<open>wait\<close> after the last \<^verbatim>\<open>notify_one\<close>: it is
  blocked with ten tasks in the queue and no notification pending, it cannot move, and no
  future is ready. This is the lost wakeup of C2. (In \<open>scenario1_woken\<close> the submissions
  come after the \<^verbatim>\<open>wait\<close>; the first \<^verbatim>\<open>notify_one\<close> wakes the worker, which takes the
  first task.)
\<close>

theorem scenario1_handles_never_ready:
  "exec scenario1_lost_wakeup (init (Suc 0)) \<noteq> None \<and>
   pc (threads (the (exec scenario1_lost_wakeup (init (Suc 0)))) ! 0) = Waiting \<and>
   tasks (the (exec scenario1_lost_wakeup (init (Suc 0)))) = [0, 1, 2, 3, 4, 5, 6, 7, 8, 9] \<and>
   notifies (the (exec scenario1_lost_wakeup (init (Suc 0)))) = 0 \<and>
   get 0 (the (exec scenario1_lost_wakeup (init (Suc 0)))) = None \<and>
   get 9 (the (exec scenario1_lost_wakeup (init (Suc 0)))) = None \<and>
   step (Worker 0) (the (exec scenario1_lost_wakeup (init (Suc 0)))) = None \<and>
   pc (threads (the (exec scenario1_woken (init (Suc 0)))) ! 0) = In_task \<and>
   wfunc (threads (the (exec scenario1_woken (init (Suc 0)))) ! 0) = Some 0"
  by (simp add: scenario1_lost_wakeup_def scenario1_woken_def run_simps upt_conv_Cons)

text \<open>
  C9: a variable passed to \<^verbatim>\<open>submit\<close> for a reference parameter is copied into the bind
  object. Unless the submitting code assigns to it, the variable keeps the value it had at
  the call, in every later state; once the task has run, the bind object holds what the
  callable wrote (for \<^verbatim>\<open>addition_store\<close>: the sum, in the third stored argument).
\<close>

theorem reference_argument_is_copied:
  assumes "exec evs1 (init n) = Some s1" "step (Submit_push f args) s1 = Some s2"
    "exec evs2 s2 = Some s" "k < length args" "args ! k = Var c"
    "\<not> list_ex (assigns_to c) evs2"
  shows "vars s ! c = vars s1 ! c \<and>
     (get (submit_future s1) s \<noteq> None \<longrightarrow>
        bound (func (heap s ! submit_future s1)) = snd (f (map (arg_value (vars s1)) args)))"
proof -
  from assms(2) have ok: "list_all (arg_ok (vars s1)) args" and v: "vars s2 = vars s1"
    by (auto simp: submit_push_def Let_def split: if_splits)
  from ok assms(4,5) have "arg_ok (vars s1) (Var c)"
    by (metis list_all_length)
  then have c: "c < length (vars s2)" by (simp add: v)
  from exec_vars[OF assms(3,6) c] v have "vars s ! c = vars s1 ! c" by simp
  moreover from submitted_task[OF assms(2,3)]
  have "get (submit_future s1) s \<noteq> None \<longrightarrow>
        bound (func (heap s ! submit_future s1)) = snd (f (map (arg_value (vars s1)) args))"
    by (auto simp: get_def)
  ultimately show ?thesis by simp
qed

theorem reference_argument_is_copied_witness:
  "exec [Declare 150, Declare 120, Declare 7] (init (Suc 0)) \<noteq> None \<and>
   step (Submit_push addition_store [Var 0, Var 1, Var 2])
     (the (exec [Declare 150, Declare 120, Declare 7] (init (Suc 0)))) \<noteq> None \<and>
   \<not> list_ex (assigns_to 2) iteration \<and>
   vars (the (exec iteration (the (step (Submit_push addition_store [Var 0, Var 1, Var 2])
     (the (exec [Declare 150, Declare 120, Declare 7] (init (Suc 0)))))))) ! 2 = 7 \<and>
   get 0 (the (exec iteration (the (step (Submit_push addition_store [Var 0, Var 1, Var 2])
     (the (exec [Declare 150, Declare 120, Declare 7] (init (Suc 0)))))))) = Some (Inr RVoid) \<and>
   bound (func (heap (the (exec iteration (the (step (Submit_push addition_store [Var 0, Var 1, Var 2])
     (the (exec [Declare 150, Declare 120, Declare 7] (init (Suc 0)))))))) ! 0)) = [150, 120, 270]"
  using reference_argument_is_copied[of "[Declare 150, Declare 120, Declare 7]" "Suc 0"
      "the (exec [Declare 150, Declare 120, Declare 7] (init (Suc 0)))"
      addition_store "[Var 0, Var 1, Var 2]"
      "the (step (Submit_push addition_store [Var 0, Var 1, Var 2])
         (the (exec [Declare 150, Declare 120, Declare 7] (init (Suc 0)))))"
      iteration
      "the (exec iteration (the (step (Submit_push addition_store [Var 0, Var 1, Var 2])
         (the (exec [Declare 150, Declare 120, Declare 7] (init (Suc 0)))))))"
      2 2]
  by (simp add: iteration_def run_simps)

text \<open>
  C4: a callable that throws. In every state after its submission no worker has crashed,
  and the future is either not ready or holds the exception; and when a worker is inside
  the task, the step that completes the call stores the exception in the future and takes
  the worker on to the end of the loop body.
\<close>

theorem task_failure_is_captured:
  assumes "exec evs1 (init n) = Some s1" "step (Submit_push f args) s1 = Some s2"
    "exec evs2 s2 = Some s" "fst (f (map (arg_value (vars s1)) args)) = Inl e"
  shows "(\<forall>i<length (threads s). pc (threads s ! i) \<noteq> Crashed) \<and>
     (get (submit_future s1) s = None \<or> get (submit_future s1) s = Some (Inl e)) \<and>
     (\<forall>i<length (threads s).
        pc (threads s ! i) = In_task \<and> wfunc (threads s ! i) = Some (submit_future s1) \<longrightarrow>
        (\<exists>s'. step (Worker i) s = Some s' \<and> pc (threads s' ! i) = Unlock \<and>
           get (submit_future s1) s' = Some (Inl e)))"
proof -
  let ?h = "submit_future s1"
  from assms(1-3) have "exec (evs1 @ Submit_push f args # evs2) (init n) = Some s"
    by (simp add: exec_append)
  note I = reachable_inv[OF this]
  then have T: "threads_ok s" by (simp add: pool_inv_def)
  note st = submitted_task[OF assms(2,3)]
  have a: "\<forall>i<length (threads s). pc (threads s ! i) \<noteq> Crashed"
    using threads_okD[OF T] by (simp add: thread_ok_def)
  have b: "get ?h s = None \<or> get ?h s = Some (Inl e)"
    using st assms(4) by (auto simp: get_def)
  have c: "\<exists>s'. step (Worker i) s = Some s' \<and> pc (threads s' ! i) = Unlock \<and>
           get ?h s' = Some (Inl e)"
    if i: "i < length (threads s)" and p: "pc (threads s ! i) = In_task"
      and w: "wfunc (threads s ! i) = Some ?h" for i
  proof -
    from no_crash[OF I i] p w obtain hp where hp: "run_task ?h (heap s) = Some hp"
      by auto
    from run_task_done[OF hp] st have "hp ! ?h = done_task \<lparr>func = bind f (map (arg_value (vars s1)) args), result = None\<rparr>"
      by auto
    with assms(4) have r: "result (hp ! ?h) = Some (Inl e)"
      by (simp add: done_task_def invoke_def bind_def split: prod.splits)
    from i p w hp have "step (Worker i) s = Some (goto i Unlock (s\<lparr>heap := hp, runs := runs s @ [?h]\<rparr>))"
      by (simp add: worker_step_def)
    moreover from run_task_Some(1,2)[OF hp] r
    have "get ?h (goto i Unlock (s\<lparr>heap := hp, runs := runs s @ [?h]\<rparr>)) = Some (Inl e)"
      by (simp add: get_def)
    ultimately show ?thesis using i by simp
  qed
  from a b c show ?thesis by blast
qed

theorem task_failure_is_captured_witness:
  "step (Submit_push throwing []) (init (Suc 0)) \<noteq> None \<and>
   fst (throwing (map (arg_value (vars (init (Suc 0)))) [])) = Inl (Exn ''failure'') \<and>
   exec iteration (the (step (Submit_push throwing []) (init (Suc 0)))) \<noteq> None \<and>
   pc (threads (the (exec iteration (the (step (Submit_push throwing []) (init (Suc 0)))))) ! 0) =
     L66_shutdown \<and>
   get 0 (the (exec iteration (the (step (Submit_push throwing []) (init (Suc 0)))))) =
     Some (Inl (Exn ''failure''))"
  using task_failure_is_captured[of "[]" "Suc 0" "init (Suc 0)" throwing "[]"
      "the (step (Submit_push throwing []) (init (Suc 0)))" iteration
      "the (exec iteration (the (step (Submit_push throwing []) (init (Suc 0)))))"
      "Exn ''failure''"]
  by (simp add: iteration_def throwing_def run_simps)

end
